theory Spec2Isabelle
  imports Main "HOL-Library.Sublist"
begin

section \<open>The voice assistant of examples/assistant/assistant.cpp\<close>

text \<open>
  The program is one polling loop around two mutable fields of \<open>assistant_params\<close>
  (\<open>is_active\<close>, \<open>current_segment\<close>) and a time stamp (\<open>last_speech_time\<close>), a
  substring test for the wake word, and a line scanner for the reply of the completion
  service. Everything the loop obtains from outside (the verdict of \<open>vad_simple\<close>, the
  clock, the segments of \<open>whisper_full\<close>, the outcome of the curl transfer, the answer of
  \<open>sdl_poll_events\<close>) is an input of the model; everything it prints is an event.
\<close>

subsection \<open>The parts of \<open>std::string\<close> the program calls\<close>

text \<open>
  \<open>std::string::find\<close> returns the lowest position at or after \<open>pos\<close> where the
  pattern occurs, or the sentinel \<open>npos\<close>. The sentinel is \<open>None\<close> here; where the
  program does arithmetic on the returned \<open>size_t\<close>, \<open>size_t_of\<close> gives the number
  (\<open>npos\<close> is the largest 64-bit value; a position inside a string is smaller) and
  the wrap-around is written out.
\<close>

fun str_find :: "string \<Rightarrow> string \<Rightarrow> nat option" where
  "str_find [] pat = (if pat = [] then Some 0 else None)"
| "str_find (c # cs) pat =
     (if prefix pat (c # cs) then Some 0 else map_option Suc (str_find cs pat))"

definition string_find :: "string \<Rightarrow> string \<Rightarrow> nat \<Rightarrow> nat option" where
  "string_find s pat pos =
     (if length s < pos then None
      else map_option (\<lambda>i. pos + i) (str_find (drop pos s) pat))"

definition npos :: nat where
  "npos = 2 ^ 64 - 1"

definition size_t_of :: "nat option \<Rightarrow> nat" where
  "size_t_of r = (case r of None \<Rightarrow> npos | Some i \<Rightarrow> i)"

text \<open>
  \<open>std::string::substr (pos, n)\<close> throws \<open>std::out_of_range\<close> when \<open>pos\<close> is beyond
  the end (\<open>None\<close> here) and otherwise returns at most \<open>n\<close> characters from \<open>pos\<close>.
\<close>

definition substr :: "string \<Rightarrow> nat \<Rightarrow> nat \<Rightarrow> string option" where
  "substr s pos n = (if length s < pos then None else Some (take n (drop pos s)))"

subsection \<open>The wake word test\<close>

definition contains_wake_word :: "string \<Rightarrow> string \<Rightarrow> bool" where
  "contains_wake_word text wake = (string_find text wake 0 \<noteq> None)"

subsection \<open>\<open>call_ollama\<close>: the reply of the completion service\<close>

text \<open>
  \<open>curl_easy_init\<close> may return no handle, \<open>curl_easy_perform\<close> may fail, or the
  transfer succeeds and \<open>WriteCallback\<close> has collected the body in \<open>response.data\<close>.
\<close>

datatype curl_outcome = InitFailed | PerformFailed | PerformOk string

text \<open>
  What the loop prints: the three lines of a finalized turn are \<open>Processing\<close> (with the
  utterance), \<open>Reply\<close> (with the text \<open>call_ollama\<close> returned) and \<open>Waiting\<close>; the
  two messages on \<open>stderr\<close> are \<open>FailedToProcess\<close> and \<open>CurlFailed\<close>.
\<close>

datatype event =
    Activated
  | PartialText string
  | Processing string
  | Reply string
  | Waiting
  | FailedToProcess
  | CurlFailed

text \<open>
  The loop \<open>while (std::getline (response_stream, line))\<close>: a line ends at a newline,
  which is dropped; characters after the last newline form a last line, and nothing after
  it forms none.
\<close>

fun getlines :: "string \<Rightarrow> string \<Rightarrow> string list" where
  "getlines line [] = (if line = [] then [] else [line])"
| "getlines line (c # cs) =
     (if c = CHR 0x0A then line # getlines [] cs else getlines (line @ [c]) cs)"

definition dquote :: char where
  "dquote = CHR 0x22"

definition response_key :: string where
  "response_key = dquote # ''response'' @ [dquote] @ '':''"

definition response_key_quote :: string where
  "response_key_quote = response_key @ [dquote]"

text \<open>
  The body of that loop for one line. \<open>start\<close> is a \<open>size_t\<close>: the position found
  (or \<open>npos\<close>) plus 11, modulo \<open>2 ^ 64\<close>. \<open>None\<close> is the \<open>std::out_of_range\<close> of
  \<open>substr\<close>, which nothing in the program catches.
\<close>

definition parse_line :: "string \<Rightarrow> string \<Rightarrow> string option" where
  "parse_line result line =
     (if string_find line response_key 0 \<noteq> None then
        (let start = (size_t_of (string_find line response_key_quote 0) + 11) mod 2 ^ 64;
             end = string_find line [dquote] start
         in if start \<noteq> npos \<and> end \<noteq> None then
              (case substr line start ((size_t_of end + 2 ^ 64 - start) mod 2 ^ 64) of
                 None \<Rightarrow> None
               | Some fragment \<Rightarrow> Some (result @ fragment))
            else Some result)
      else Some result)"

fun parse_lines :: "string \<Rightarrow> string list \<Rightarrow> string option" where
  "parse_lines result [] = Some result"
| "parse_lines result (line # rest) =
     (case parse_line result line of
        None \<Rightarrow> None
      | Some result' \<Rightarrow> parse_lines result' rest)"

text \<open>
  \<open>call_ollama\<close> returns the messages it wrote to \<open>stderr\<close> and its result. The prompt is
  sent to the service and does not enter the computation of the result otherwise.
\<close>

definition call_ollama :: "string \<Rightarrow> curl_outcome \<Rightarrow> (event list \<times> string) option" where
  "call_ollama prompt outcome =
     (case outcome of
        InitFailed \<Rightarrow> Some ([], [])
      | PerformFailed \<Rightarrow> Some ([CurlFailed], [])
      | PerformOk data \<Rightarrow> map_option (Pair []) (parse_lines [] (getlines [] data)))"

subsection \<open>The session state and one cycle of the loop\<close>

text \<open>
  The fields of \<open>assistant_params\<close> that the loop reads or writes. The two times are
  \<open>int64_t\<close> milliseconds since the epoch and the threshold is an \<open>int\<close>; their
  difference is taken in \<open>int64_t\<close>, where it does not overflow for clock readings, so
  they are integers here.
\<close>

record assistant_params =
  wake_word :: string
  silence_threshold_ms :: int
  is_active :: bool
  current_segment :: string
  last_speech_time :: int

definition default_params :: assistant_params where
  "default_params =
     \<lparr>wake_word = ''test'', silence_threshold_ms = 1000, is_active = False,
      current_segment = [], last_speech_time = 0\<rparr>"

text \<open>
  What one iteration of \<open>while (is_running)\<close> obtains from its collaborators: the verdict
  of \<open>vad_simple\<close>, the reading of the system clock in milliseconds, the segment texts
  after \<open>whisper_full\<close> (\<open>None\<close> when it returned non-zero), the outcome of the curl
  transfer should \<open>call_ollama\<close> be called, and the answer of \<open>sdl_poll_events\<close>.
\<close>

record cycle_input =
  vad_simple :: bool
  clock_ms :: int
  whisper_full :: "string list option"
  curl_perform :: curl_outcome
  sdl_poll_events :: bool

text \<open>The loop over the segments of one window.\<close>

fun segments_loop :: "assistant_params \<Rightarrow> string list \<Rightarrow> assistant_params \<times> event list" where
  "segments_loop s [] = (s, [])"
| "segments_loop s (txt # rest) =
     (if \<not> is_active s then
        (if contains_wake_word txt (wake_word s) then
           (case segments_loop (s\<lparr>is_active := True\<rparr>) rest of
              (s', evs) \<Rightarrow> (s', Activated # evs))
         else segments_loop s rest)
      else
        (case segments_loop (s\<lparr>current_segment := current_segment s @ txt\<rparr>) rest of
           (s', evs) \<Rightarrow> (s', PartialText txt # evs)))"

text \<open>
  One iteration: the new state, what was printed, and the value of \<open>is_running\<close> for the
  next test of the loop. After a failed \<open>whisper_full\<close> the \<open>continue\<close> skips
  \<open>sdl_poll_events\<close>, so \<open>is_running\<close> stays true. \<open>None\<close> is the uncaught exception
  of \<open>call_ollama\<close>.
\<close>

definition cycle ::
  "assistant_params \<Rightarrow> cycle_input \<Rightarrow> (assistant_params \<times> event list \<times> bool) option" where
  "cycle s c =
     (if vad_simple c then
        (let s1 = s\<lparr>last_speech_time := clock_ms c\<rparr> in
         case whisper_full c of
           None \<Rightarrow> Some (s1, [FailedToProcess], True)
         | Some segments \<Rightarrow>
             (case segments_loop s1 segments of
                (s2, evs) \<Rightarrow> Some (s2, evs, sdl_poll_events c)))
      else
        (if is_active s
            \<and> clock_ms c - last_speech_time s > silence_threshold_ms s
            \<and> current_segment s \<noteq> [] then
           (case call_ollama (current_segment s) (curl_perform c) of
              None \<Rightarrow> None
            | Some (errs, response) \<Rightarrow>
                Some (s\<lparr>current_segment := [], is_active := False\<rparr>,
                      Processing (current_segment s) # errs @ [Reply response, Waiting],
                      sdl_poll_events c))
         else Some (s, [], sdl_poll_events c)))"

text \<open>
  The loop on a finite sequence of inputs: it stops when \<open>is_running\<close> is false or the
  inputs end, and returns the state reached and everything printed.
\<close>

fun main_loop ::
  "assistant_params \<Rightarrow> cycle_input list \<Rightarrow> (assistant_params \<times> event list) option" where
  "main_loop s [] = Some (s, [])"
| "main_loop s (c # cs) =
     (case cycle s c of
        None \<Rightarrow> None
      | Some (s', evs, is_running) \<Rightarrow>
          (if is_running then
             (case main_loop s' cs of
                None \<Rightarrow> None
              | Some (s'', evs') \<Rightarrow> Some (s'', evs @ evs'))
           else Some (s', evs)))"

text \<open>
  The states at the head of the loop: the initial parameters, for any configured wake
  phrase and threshold (the program's own are those of \<open>default_params\<close>), and what a
  cycle makes of such a state.
\<close>

inductive reachable :: "assistant_params \<Rightarrow> bool" where
  initial: "reachable (default_params\<lparr>wake_word := w, silence_threshold_ms := th\<rparr>)"
| step: "reachable s \<Longrightarrow> cycle s c = Some (s', evs, r) \<Longrightarrow> reachable s'"

text \<open>
  Two readings of the inputs and outputs that the statements below use: whether an event
  is the \<open>Processing\<close> line that opens a finalized turn, and the segments that
  transcription delivered in a cycle (none without speech or when \<open>whisper_full\<close> failed).
\<close>

fun is_finalize :: "event \<Rightarrow> bool" where
  "is_finalize (Processing u) = True"
| "is_finalize e = False"

definition segments_of :: "cycle_input \<Rightarrow> string list" where
  "segments_of c =
     (if vad_simple c then (case whisper_full c of None \<Rightarrow> [] | Some segments \<Rightarrow> segments)
      else [])"

section \<open>Properties\<close>

subsection \<open>Searching a string\<close>

lemma str_find_None_iff: "str_find s pat = None \<longleftrightarrow> \<not> sublist pat s"
  by (induction s) (auto simp: sublist_Cons_right)

lemma str_find_bound: "str_find s pat = Some i \<Longrightarrow> i + length pat \<le> length s"
proof (induction s arbitrary: i)
  case Nil
  then show ?case by (simp split: if_splits)
next
  case (Cons c cs)
  show ?case
  proof (cases "prefix pat (c # cs)")
    case True
    with Cons.prems prefix_length_le [of pat "c # cs"] show ?thesis by simp
  next
    case False
    with Cons.prems obtain j where "str_find cs pat = Some j" "i = Suc j"
      by auto
    with Cons.IH show ?thesis by fastforce
  qed
qed

lemma str_find_occurs: "str_find s pat = Some i \<Longrightarrow> take (length pat) (drop i s) = pat"
proof (induction s arbitrary: i)
  case Nil
  then show ?case by (simp split: if_splits)
next
  case (Cons c cs)
  show ?case
  proof (cases "prefix pat (c # cs)")
    case True
    with Cons.prems show ?thesis by (auto simp: prefix_def)
  next
    case False
    with Cons.prems obtain j where "str_find cs pat = Some j" "i = Suc j"
      by auto
    with Cons.IH show ?thesis by simp
  qed
qed

subsection \<open>\<open>call_ollama\<close> always returns\<close>

text \<open>
  \<open>substr\<close> is only reached with a start inside the line, so \<open>std::out_of_range\<close>
  is never thrown: \<open>call_ollama\<close>, and with it every cycle, returns.
\<close>

lemma response_key_length: "length response_key = 11"
  by (simp add: response_key_def)

lemma response_key_quote_length: "length response_key_quote = 12"
  by (simp add: response_key_quote_def response_key_def)

lemma string_find_0: "string_find s pat 0 = str_find s pat"
  by (cases "str_find s pat") (simp_all add: string_find_def)

lemma parse_line_returns: "\<exists>r. parse_line result line = Some r"
proof (cases "str_find line response_key")
  case None
  then show ?thesis by (simp add: parse_line_def string_find_0)
next
  case (Some p)
  from str_find_bound [OF Some] have len: "11 \<le> length line"
    by (simp add: response_key_length)
  define start where "start = (size_t_of (str_find line response_key_quote) + 11) mod 2 ^ 64"
  have "start \<le> length line"
  proof (cases "str_find line response_key_quote")
    case None
    then have "start = 10" by (simp add: start_def size_t_of_def npos_def)
    with len show ?thesis by simp
  next
    case (Some q)
    from str_find_bound [OF Some] have "q + 12 \<le> length line"
      by (simp add: response_key_quote_length)
    moreover have "start \<le> q + 11"
      by (simp add: start_def size_t_of_def Some)
    ultimately show ?thesis by simp
  qed
  then show ?thesis
    by (simp add: parse_line_def string_find_0 Let_def substr_def start_def)
qed

lemma parse_lines_returns: "\<exists>r. parse_lines result ls = Some r"
proof (induction ls arbitrary: result)
  case Nil
  show ?case by simp
next
  case (Cons l ls)
  from parse_line_returns obtain r where "parse_line result l = Some r" by blast
  with Cons.IH [of r] show ?case by simp
qed

lemma call_ollama_returns: "\<exists>errs r. call_ollama prompt outcome = Some (errs, r)"
proof (cases outcome)
  case (PerformOk data)
  from parse_lines_returns obtain r where "parse_lines [] (getlines [] data) = Some r" by blast
  with PerformOk show ?thesis by (simp add: call_ollama_def)
qed (simp_all add: call_ollama_def)

subsection \<open>The loop over the segments\<close>

lemma segments_loop_active:
  "is_active s \<Longrightarrow>
   segments_loop s segs = (s\<lparr>current_segment := current_segment s @ concat segs\<rparr>, map PartialText segs)"
  by (induction segs arbitrary: s) simp_all

lemma segments_loop_no_match:
  "\<not> is_active s \<Longrightarrow> \<forall>t\<in>set segs. \<not> contains_wake_word t (wake_word s) \<Longrightarrow>
   segments_loop s segs = (s, [])"
  by (induction segs) simp_all

lemma segments_loop_first_match:
  assumes "\<not> is_active s" and "\<forall>t\<in>set pre. \<not> contains_wake_word t (wake_word s)"
    and "contains_wake_word w (wake_word s)"
  shows "segments_loop s (pre @ w # post) =
    (s\<lparr>is_active := True, current_segment := current_segment s @ concat post\<rparr>,
     Activated # map PartialText post)"
  using assms by (induction pre) (simp_all add: segments_loop_active)

subsection \<open>The branches of a cycle\<close>

lemma cycle_speech_failed:
  "vad_simple c \<Longrightarrow> whisper_full c = None \<Longrightarrow>
   cycle s c = Some (s\<lparr>last_speech_time := clock_ms c\<rparr>, [FailedToProcess], True)"
  by (simp add: cycle_def)

lemma cycle_speech:
  "vad_simple c \<Longrightarrow> whisper_full c = Some segs \<Longrightarrow>
   cycle s c =
     Some (fst (segments_loop (s\<lparr>last_speech_time := clock_ms c\<rparr>) segs),
           snd (segments_loop (s\<lparr>last_speech_time := clock_ms c\<rparr>) segs),
           sdl_poll_events c)"
  by (simp add: cycle_def split: prod.splits)

lemma cycle_silence_idle:
  "\<not> vad_simple c \<Longrightarrow>
   \<not> (is_active s \<and> silence_threshold_ms s < clock_ms c - last_speech_time s
        \<and> current_segment s \<noteq> []) \<Longrightarrow>
   cycle s c = Some (s, [], sdl_poll_events c)"
  by (auto simp: cycle_def)

lemma cycle_silence_finalize:
  assumes "\<not> vad_simple c" and "is_active s"
    and "silence_threshold_ms s < clock_ms c - last_speech_time s"
    and "current_segment s \<noteq> []"
  shows "\<exists>errs response.
    call_ollama (current_segment s) (curl_perform c) = Some (errs, response) \<and>
    cycle s c =
      Some (s\<lparr>current_segment := [], is_active := False\<rparr>,
            Processing (current_segment s) # errs @ [Reply response, Waiting],
            sdl_poll_events c)"
proof -
  from call_ollama_returns obtain errs response
    where "call_ollama (current_segment s) (curl_perform c) = Some (errs, response)"
    by blast
  with assms show ?thesis by (simp add: cycle_def)
qed

lemma call_ollama_errs:
  "call_ollama prompt outcome = Some (errs, response) \<Longrightarrow> set errs \<subseteq> {CurlFailed}"
  by (cases outcome) (auto simp: call_ollama_def)

lemma cycle_dormant_wake:
  assumes "\<not> is_active s" and "vad_simple c" and "whisper_full c = Some (pre @ w # post)"
    and "\<forall>t\<in>set pre. \<not> contains_wake_word t (wake_word s)"
    and "contains_wake_word w (wake_word s)"
  shows "cycle s c =
    Some (s\<lparr>last_speech_time := clock_ms c, is_active := True,
             current_segment := current_segment s @ concat post\<rparr>,
          Activated # map PartialText post, sdl_poll_events c)"
  using assms by (simp add: cycle_speech segments_loop_first_match)

lemma cycle_dormant_no_match:
  assumes "\<not> is_active s" and "vad_simple c" and "whisper_full c = Some segs"
    and "\<forall>t\<in>set segs. \<not> contains_wake_word t (wake_word s)"
  shows "cycle s c = Some (s\<lparr>last_speech_time := clock_ms c\<rparr>, [], sdl_poll_events c)"
  using assms by (simp add: cycle_speech segments_loop_no_match)

lemma cycle_dormant_cases:
  assumes "\<not> is_active s"
  shows "(\<exists>pre w post. vad_simple c \<and> whisper_full c = Some (pre @ w # post)
            \<and> (\<forall>t\<in>set pre. \<not> contains_wake_word t (wake_word s))
            \<and> contains_wake_word w (wake_word s)
            \<and> cycle s c =
                Some (s\<lparr>last_speech_time := clock_ms c, is_active := True,
                         current_segment := current_segment s @ concat post\<rparr>,
                      Activated # map PartialText post, sdl_poll_events c))
       \<or> (\<exists>s' evs r. cycle s c = Some (s', evs, r) \<and> \<not> is_active s'
            \<and> current_segment s' = current_segment s \<and> set evs \<subseteq> {FailedToProcess})"
proof (cases "vad_simple c")
  case False
  with assms have "cycle s c = Some (s, [], sdl_poll_events c)"
    by (simp add: cycle_silence_idle)
  with assms show ?thesis by simp
next
  case True
  show ?thesis
  proof (cases "whisper_full c")
    case None
    with True assms show ?thesis by (auto simp: cycle_speech_failed)
  next
    case (Some segs)
    show ?thesis
    proof (cases "\<exists>t\<in>set segs. contains_wake_word t (wake_word s)")
      case hit: True
      then obtain pre w post where split: "segs = pre @ w # post"
        "contains_wake_word w (wake_word s)"
        "\<forall>t\<in>set pre. \<not> contains_wake_word t (wake_word s)"
        using split_list_first_prop [of segs "\<lambda>t. contains_wake_word t (wake_word s)"] by blast
      with assms True Some cycle_dormant_wake [of s c pre w post] show ?thesis by blast
    next
      case False
      with assms True Some cycle_dormant_no_match [of s c segs] show ?thesis by simp
    qed
  qed
qed

lemma cycle_active_cases:
  assumes "is_active s"
  shows "\<exists>s' evs r. cycle s c = Some (s', evs, r) \<and>
     (is_active s' \<and> (\<forall>e\<in>set evs. e \<noteq> Activated \<and> \<not> is_finalize e)
        \<and> current_segment s' = current_segment s @ concat (segments_of c)
        \<and> (sdl_poll_events c \<longrightarrow> r)
      \<or> (\<exists>u rest. evs = Processing u # rest) \<and> \<not> is_active s' \<and> current_segment s' = [])"
proof (cases "vad_simple c")
  case True
  show ?thesis
  proof (cases "whisper_full c")
    case None
    with True assms show ?thesis by (auto simp: cycle_speech_failed segments_of_def)
  next
    case (Some segs)
    with True assms show ?thesis
      by (auto simp: cycle_speech segments_loop_active segments_of_def)
  qed
next
  case False
  show ?thesis
  proof (cases "silence_threshold_ms s < clock_ms c - last_speech_time s \<and> current_segment s \<noteq> []")
    case True
    with False assms cycle_silence_finalize [of c s] show ?thesis by auto
  next
    case idle: False
    with False cycle_silence_idle [of c s] have "cycle s c = Some (s, [], sdl_poll_events c)"
      by blast
    with False assms show ?thesis by (simp add: segments_of_def)
  qed
qed

subsection \<open>Runs of the loop from an active state\<close>

lemma armed_run_no_activation:
  "is_active s \<Longrightarrow> main_loop s cs = Some (s', evs) \<Longrightarrow>
   Activated \<notin> set (takeWhile (\<lambda>e. \<not> is_finalize e) evs)"
proof (induction cs arbitrary: s s' evs)
  case Nil
  then show ?case by simp
next
  case (Cons c cs)
  from cycle_active_cases [OF Cons.prems(1), of c] obtain s1 evs1 r where
    c: "cycle s c = Some (s1, evs1, r)" and
    alt: "is_active s1 \<and> (\<forall>e\<in>set evs1. e \<noteq> Activated \<and> \<not> is_finalize e)
          \<or> (\<exists>u rest. evs1 = Processing u # rest)"
    by blast
  from alt show ?case
  proof
    assume stay: "is_active s1 \<and> (\<forall>e\<in>set evs1. e \<noteq> Activated \<and> \<not> is_finalize e)"
    show ?thesis
    proof (cases r)
      case True
      with c Cons.prems(2) obtain evs2 where
        rest: "main_loop s1 cs = Some (s', evs2)" and evs: "evs = evs1 @ evs2"
        by (auto split: option.splits)
      from stay have "takeWhile (\<lambda>e. \<not> is_finalize e) (evs1 @ evs2)
          = evs1 @ takeWhile (\<lambda>e. \<not> is_finalize e) evs2"
        by (simp add: takeWhile_append2)
      with stay evs Cons.IH [OF _ rest] show ?thesis by auto
    next
      case False
      with c Cons.prems(2) have "evs = evs1" by simp
      with stay show ?thesis by (auto dest: set_takeWhileD)
    qed
  next
    assume "\<exists>u rest. evs1 = Processing u # rest"
    then obtain u rest where evs1: "evs1 = Processing u # rest" by blast
    with c Cons.prems(2) have "\<exists>tl. evs = Processing u # tl"
      by (auto split: option.splits if_splits)
    then show ?thesis by auto
  qed
qed

lemma armed_run_concat:
  "is_active s \<Longrightarrow> \<forall>c\<in>set cs. sdl_poll_events c \<Longrightarrow> main_loop s cs = Some (s', evs) \<Longrightarrow>
   \<forall>e\<in>set evs. \<not> is_finalize e \<Longrightarrow>
   is_active s' \<and> current_segment s' = current_segment s @ concat (concat (map segments_of cs))"
proof (induction cs arbitrary: s s' evs)
  case Nil
  then show ?case by simp
next
  case (Cons c cs)
  from cycle_active_cases [OF Cons.prems(1), of c] obtain s1 evs1 r where
    c: "cycle s c = Some (s1, evs1, r)" and
    alt: "is_active s1 \<and> (\<forall>e\<in>set evs1. e \<noteq> Activated \<and> \<not> is_finalize e)
            \<and> current_segment s1 = current_segment s @ concat (segments_of c)
            \<and> (sdl_poll_events c \<longrightarrow> r)
          \<or> (\<exists>u rest. evs1 = Processing u # rest)"
    by blast
  have sub: "set evs1 \<subseteq> set evs"
    using c Cons.prems(3) by (auto split: option.splits if_splits)
  from alt show ?case
  proof
    assume "\<exists>u rest. evs1 = Processing u # rest"
    then obtain u where "Processing u \<in> set evs1" by fastforce
    with sub Cons.prems(4) have "\<not> is_finalize (Processing u)" by blast
    then show ?thesis by simp
  next
    assume stay: "is_active s1 \<and> (\<forall>e\<in>set evs1. e \<noteq> Activated \<and> \<not> is_finalize e)
            \<and> current_segment s1 = current_segment s @ concat (segments_of c)
            \<and> (sdl_poll_events c \<longrightarrow> r)"
    with Cons.prems(2) have r by simp
    with c Cons.prems(3) obtain evs2 where
      rest: "main_loop s1 cs = Some (s', evs2)" and evs: "evs = evs1 @ evs2"
      by (auto split: option.splits)
    from evs Cons.prems(4) have "\<forall>e\<in>set evs2. \<not> is_finalize e" by simp
    with Cons.IH [OF _ _ rest] stay Cons.prems(2) show ?thesis by simp
  qed
qed

subsection \<open>The utterance is empty whenever the assistant is inactive\<close>

lemma dormant_invariant: "reachable s \<Longrightarrow> \<not> is_active s \<Longrightarrow> current_segment s = []"
proof (induction rule: reachable.induct)
  case (initial w th)
  show ?case by (simp add: default_params_def)
next
  case (step s c s' evs r)
  show ?case
  proof (cases "is_active s")
    case True
    from cycle_active_cases [OF True, of c] step.hyps(2) step.prems
    show ?thesis by auto
  next
    case False
    with step.IH have empty: "current_segment s = []" by simp
    from cycle_dormant_cases [OF False, of c] step.hyps(2) step.prems empty show ?thesis
      by auto
  qed
qed

lemma reachable_default: "reachable default_params"
  using reachable.initial [where w = "''test''" and th = 1000] by (simp add: default_params_def)

subsection \<open>The time stamp and the two failures\<close>

lemma segments_loop_keeps:
  "last_speech_time (fst (segments_loop s segs)) = last_speech_time s"
proof (cases "is_active s")
  case True
  then show ?thesis by (simp add: segments_loop_active)
next
  case False
  show ?thesis
  proof (cases "\<exists>t\<in>set segs. contains_wake_word t (wake_word s)")
    case True
    then obtain pre w post where "segs = pre @ w # post"
      "contains_wake_word w (wake_word s)"
      "\<forall>t\<in>set pre. \<not> contains_wake_word t (wake_word s)"
      using split_list_first_prop [of segs "\<lambda>t. contains_wake_word t (wake_word s)"] by blast
    with False show ?thesis by (simp add: segments_loop_first_match)
  next
    case no: False
    with False show ?thesis by (simp add: segments_loop_no_match)
  qed
qed

lemma cycle_last_speech_time:
  "\<exists>s' evs r. cycle s c = Some (s', evs, r)
     \<and> last_speech_time s' = (if vad_simple c then clock_ms c else last_speech_time s)
     \<and> (r \<or> \<not> sdl_poll_events c)"
proof (cases "vad_simple c")
  case True
  show ?thesis
  proof (cases "whisper_full c")
    case None
    with True show ?thesis by (auto simp: cycle_speech_failed)
  next
    case (Some segs)
    with True show ?thesis by (simp add: cycle_speech segments_loop_keeps)
  qed
next
  case False
  show ?thesis
  proof (cases "is_active s \<and> silence_threshold_ms s < clock_ms c - last_speech_time s
        \<and> current_segment s \<noteq> []")
    case True
    with False cycle_silence_finalize [of c s] show ?thesis by auto
  next
    case idle: False
    with False cycle_silence_idle [of c s] show ?thesis by auto
  qed
qed

lemma run_last_speech_time:
  "main_loop s cs = Some (s', evs) \<Longrightarrow> \<forall>c\<in>set cs. sdl_poll_events c \<Longrightarrow>
   last_speech_time s' =
     (case rev (filter vad_simple cs) of [] \<Rightarrow> last_speech_time s | c # _ \<Rightarrow> clock_ms c)"
proof (induction cs arbitrary: s evs)
  case Nil
  then show ?case by simp
next
  case (Cons c cs)
  from cycle_last_speech_time [of s c] obtain s1 evs1 r where
    c: "cycle s c = Some (s1, evs1, r)" and
    t: "last_speech_time s1 = (if vad_simple c then clock_ms c else last_speech_time s)" and
    r: "r \<or> \<not> sdl_poll_events c"
    by blast
  from r Cons.prems(2) have r by simp
  with c Cons.prems(1) obtain evs2 where "main_loop s1 cs = Some (s', evs2)"
    by (auto split: option.splits)
  with Cons.IH [of s1 evs2] Cons.prems(2) have
    "last_speech_time s' =
       (case rev (filter vad_simple cs) of [] \<Rightarrow> last_speech_time s1 | c # _ \<Rightarrow> clock_ms c)"
    by simp
  with t show ?case by (simp split: list.splits)
qed

lemma main_loop_after_failed_transcription:
  "vad_simple c \<Longrightarrow> whisper_full c = None \<Longrightarrow>
   main_loop s (c # cs) =
     map_option (\<lambda>(s', evs). (s', FailedToProcess # evs))
       (main_loop (s\<lparr>last_speech_time := clock_ms c\<rparr>) cs)"
  by (simp add: cycle_speech_failed split: option.splits)

lemma call_ollama_failed:
  "outcome = InitFailed \<or> outcome = PerformFailed \<Longrightarrow>
   \<exists>errs. call_ollama prompt outcome = Some (errs, [])"
  by (auto simp: call_ollama_def)

subsection \<open>What the line scanner extracts\<close>

text \<open>
  The position of the twelve-character key plus 11 is the position of the key's last
  character, the quote that opens the value. The search for the closing quote starts
  there and stops there, so the fragment taken from a line that carries a response string
  is always empty. When the eleven-character key is present but the quote does not follow
  it directly, \<open>npos + 11\<close> wraps to 10 and the fragment is read from position 10 of
  the line.
\<close>

lemma str_find_prefix: "prefix pat s \<Longrightarrow> str_find s pat = Some 0"
  by (cases s) simp_all

lemma parse_line_drops_fragment:
  assumes found: "string_find line response_key_quote 0 = Some p"
    and short: "length line < 2 ^ 64"
  shows "parse_line result line = Some result"
proof -
  from found have f: "str_find line response_key_quote = Some p"
    by (simp add: string_find_0)
  from str_find_bound [OF f] have len: "p + 12 \<le> length line"
    by (simp add: response_key_quote_length)
  from str_find_occurs [OF f] have occ: "take 12 (drop p line) = response_key_quote"
    by (simp add: response_key_quote_length)
  have split: "line = take p line @ response_key_quote @ drop 12 (drop p line)"
    using occ append_take_drop_id [of 12 "drop p line"] append_take_drop_id [of p line]
    by simp
  then have "line = take p line @ response_key @ (dquote # drop 12 (drop p line))"
    by (simp add: response_key_quote_def)
  then have "sublist response_key line"
    unfolding sublist_def by blast
  then have key: "string_find line response_key 0 \<noteq> None"
    by (simp add: string_find_0 str_find_None_iff)
  from len short have start: "(p + 11) mod 2 ^ 64 = p + 11" by simp
  have "drop (p + 11) line = drop 11 (drop p line)"
    by (simp add: add.commute)
  also have "drop p line = response_key_quote @ drop 12 (drop p line)"
    using occ append_take_drop_id [of 12 "drop p line"] by simp
  also have "drop 11 \<dots> = dquote # drop 12 (drop p line)"
    by (simp add: response_key_quote_def response_key_def)
  finally have at_quote: "drop (p + 11) line = dquote # drop 12 (drop p line)" .
  then have "str_find (drop (p + 11) line) [dquote] = Some 0"
    by simp
  with len have stop: "string_find line [dquote] (p + 11) = Some (p + 11)"
    by (simp add: string_find_def)
  from len have "substr line (p + 11) 0 = Some []"
    by (simp add: substr_def)
  with key found start stop len short show ?thesis
    by (simp add: parse_line_def size_t_of_def npos_def Let_def)
qed

lemma parse_line_without_key:
  "string_find line response_key 0 = None \<Longrightarrow> parse_line result line = Some result"
  by (simp add: parse_line_def)

lemma parse_lines_drop_all_fragments:
  assumes "\<forall>l\<in>set ls. length l < 2 ^ 64 \<and>
      (string_find l response_key 0 = None \<or> string_find l response_key_quote 0 \<noteq> None)"
  shows "parse_lines result ls = Some result"
  using assms
proof (induction ls)
  case Nil
  show ?case by simp
next
  case (Cons l ls)
  then have "parse_line result l = Some result"
    by (auto simp: parse_line_without_key parse_line_drops_fragment)
  with Cons show ?case by simp
qed

lemma call_ollama_empty_on_string_responses:
  assumes "\<forall>l\<in>set (getlines [] data). length l < 2 ^ 64 \<and>
      (string_find l response_key 0 = None \<or> string_find l response_key_quote 0 \<noteq> None)"
  shows "call_ollama prompt (PerformOk data) = Some ([], [])"
  using parse_lines_drop_all_fragments [OF assms, of "[]"] by (simp add: call_ollama_def)

lemma call_ollama_reads_from_position_10:
  "call_ollama prompt
     (PerformOk (''{'' @ [dquote] @ ''model'' @ [dquote] @ '':'' @ [dquote] @ ''qwen2.5''
                   @ [dquote] @ '','' @ [dquote] @ ''response'' @ [dquote] @ '': ''
                   @ [dquote] @ ''Hi'' @ [dquote] @ ''}''))
   = Some ([], ''qwen2.5'')"
  by (simp add: call_ollama_def response_key_quote_def response_key_def dquote_def parse_line_def
    string_find_def size_t_of_def npos_def substr_def)

section \<open>The claims\<close>

text \<open>
  C1. A cycle prints the \<open>Processing\<close> line of a finalized turn exactly when no speech
  was detected, the assistant is active, the utterance is not empty and the time since
  \<open>last_speech_time\<close> is strictly more than the threshold. The line then carries the
  accumulated utterance, that utterance is what \<open>call_ollama\<close> receives, and the cycle
  ends with the utterance cleared and the assistant inactive. So with
  \<open>last_speech_time = T\<close> a silent cycle at \<open>T + threshold + 1\<close> finalizes, one at
  \<open>T + threshold - 1\<close> does not, and an empty utterance is never finalized.
\<close>

theorem finalize_iff_silence_threshold:
  "\<exists>s' evs r. cycle s c = Some (s', evs, r) \<and>
     ((\<exists>u. Processing u \<in> set evs) \<longleftrightarrow>
        \<not> vad_simple c \<and> is_active s \<and> current_segment s \<noteq> []
          \<and> silence_threshold_ms s < clock_ms c - last_speech_time s) \<and>
     ((\<exists>u. Processing u \<in> set evs) \<longrightarrow>
        (\<exists>errs response.
           call_ollama (current_segment s) (curl_perform c) = Some (errs, response) \<and>
           evs = Processing (current_segment s) # errs @ [Reply response, Waiting]) \<and>
        current_segment s' = [] \<and> \<not> is_active s')"
proof (cases "vad_simple c")
  case True
  show ?thesis
  proof (cases "whisper_full c")
    case None
    with True show ?thesis by (auto simp: cycle_speech_failed)
  next
    case (Some segs)
    let ?s1 = "s\<lparr>last_speech_time := clock_ms c\<rparr>"
    have "\<forall>u. Processing u \<notin> set (snd (segments_loop ?s1 segs))"
    proof (cases "is_active s")
      case True
      then show ?thesis by (auto simp: segments_loop_active)
    next
      case False
      show ?thesis
      proof (cases "\<exists>t\<in>set segs. contains_wake_word t (wake_word s)")
        case True
        then obtain pre w post where "segs = pre @ w # post"
          "contains_wake_word w (wake_word s)"
          "\<forall>t\<in>set pre. \<not> contains_wake_word t (wake_word s)"
          using split_list_first_prop [of segs "\<lambda>t. contains_wake_word t (wake_word s)"] by blast
        with False show ?thesis by (auto simp: segments_loop_first_match)
      next
        case no: False
        with False show ?thesis by (simp add: segments_loop_no_match)
      qed
    qed
    with True Some show ?thesis by (simp add: cycle_speech)
  qed
next
  case silence: False
  show ?thesis
  proof (cases "is_active s \<and> silence_threshold_ms s < clock_ms c - last_speech_time s
        \<and> current_segment s \<noteq> []")
    case True
    with silence cycle_silence_finalize [of c s] obtain errs response where
      "call_ollama (current_segment s) (curl_perform c) = Some (errs, response)"
      "cycle s c = Some (s\<lparr>current_segment := [], is_active := False\<rparr>,
            Processing (current_segment s) # errs @ [Reply response, Waiting],
            sdl_poll_events c)"
      by blast
    with silence True show ?thesis by auto
  next
    case False
    with silence cycle_silence_idle [of c s] have "cycle s c = Some (s, [], sdl_poll_events c)"
      by blast
    with silence False show ?thesis by auto
  qed
qed

theorem finalize_iff_silence_threshold_witness:
  "cycle \<lparr>wake_word = ''test'', silence_threshold_ms = 1000, is_active = True,
            current_segment = ''set a timer'', last_speech_time = 5000\<rparr>
         \<lparr>vad_simple = False, clock_ms = 5000 + 1000 + 1, whisper_full = None,
            curl_perform = PerformFailed, sdl_poll_events = True\<rparr>
     = Some (\<lparr>wake_word = ''test'', silence_threshold_ms = 1000, is_active = False,
               current_segment = [], last_speech_time = 5000\<rparr>,
             [Processing ''set a timer'', CurlFailed, Reply [], Waiting], True)
   \<and> cycle \<lparr>wake_word = ''test'', silence_threshold_ms = 1000, is_active = True,
            current_segment = ''set a timer'', last_speech_time = 5000\<rparr>
         \<lparr>vad_simple = False, clock_ms = 5000 + 1000 - 1, whisper_full = None,
            curl_perform = PerformFailed, sdl_poll_events = True\<rparr>
     = Some (\<lparr>wake_word = ''test'', silence_threshold_ms = 1000, is_active = True,
               current_segment = ''set a timer'', last_speech_time = 5000\<rparr>, [], True)
   \<and> cycle \<lparr>wake_word = ''test'', silence_threshold_ms = 1000, is_active = True,
            current_segment = [], last_speech_time = 5000\<rparr>
         \<lparr>vad_simple = False, clock_ms = 900000, whisper_full = None,
            curl_perform = PerformFailed, sdl_poll_events = True\<rparr>
     = Some (\<lparr>wake_word = ''test'', silence_threshold_ms = 1000, is_active = True,
               current_segment = [], last_speech_time = 5000\<rparr>, [], True)"
  using finalize_iff_silence_threshold
    [of "\<lparr>wake_word = ''test'', silence_threshold_ms = 1000, is_active = True,
            current_segment = ''set a timer'', last_speech_time = 5000\<rparr>"
        "\<lparr>vad_simple = False, clock_ms = 5000 + 1000 + 1, whisper_full = None,
            curl_perform = PerformFailed, sdl_poll_events = True\<rparr>"]
  by (simp add: cycle_def call_ollama_def)

text \<open>
  C2. A cycle that starts inactive always returns. If speech was detected and some
  transcribed segment contains the wake word, the segments split as \<open>pre @ w # post\<close>
  with \<open>w\<close> the first segment that contains it: the cycle prints \<open>Activated\<close> once,
  the text of \<open>w\<close> (and of everything before it) is not appended to the utterance, and
  the cycle ends active. In every other case (no speech, a failed transcription, or no
  segment with the wake word) the cycle ends inactive with the utterance unchanged (no
  field other than \<open>last_speech_time\<close> differs from the state before) and prints
  nothing but the error line of a failed transcription. So the assistant leaves the
  inactive state only by a wake word match.
\<close>

theorem dormant_activation_only_on_wake_word:
  assumes "\<not> is_active s"
  shows "\<exists>s' evs r. cycle s c = Some (s', evs, r) \<and>
    (if vad_simple c \<and>
        (\<exists>segs. whisper_full c = Some segs \<and> (\<exists>t\<in>set segs. contains_wake_word t (wake_word s)))
     then \<exists>pre w post.
            whisper_full c = Some (pre @ w # post)
            \<and> (\<forall>t\<in>set pre. \<not> contains_wake_word t (wake_word s))
            \<and> contains_wake_word w (wake_word s)
            \<and> is_active s'
            \<and> evs = Activated # map PartialText post
            \<and> current_segment s' = current_segment s @ concat post
     else \<not> is_active s'
            \<and> current_segment s' = current_segment s
            \<and> s' = s\<lparr>last_speech_time := last_speech_time s'\<rparr>
            \<and> evs = (if vad_simple c \<and> whisper_full c = None then [FailedToProcess] else []))"
proof (cases "vad_simple c")
  case False
  with assms have "cycle s c = Some (s, [], sdl_poll_events c)"
    by (simp add: cycle_silence_idle)
  with False assms show ?thesis by simp
next
  case True
  show ?thesis
  proof (cases "whisper_full c")
    case None
    with True assms show ?thesis by (auto simp: cycle_speech_failed)
  next
    case (Some segs)
    show ?thesis
    proof (cases "\<exists>t\<in>set segs. contains_wake_word t (wake_word s)")
      case hit: True
      then obtain pre w post where split: "segs = pre @ w # post"
        "contains_wake_word w (wake_word s)"
        "\<forall>t\<in>set pre. \<not> contains_wake_word t (wake_word s)"
        using split_list_first_prop [of segs "\<lambda>t. contains_wake_word t (wake_word s)"] by blast
      with assms True Some have "cycle s c =
          Some (s\<lparr>last_speech_time := clock_ms c, is_active := True,
                   current_segment := current_segment s @ concat post\<rparr>,
                Activated # map PartialText post, sdl_poll_events c)"
        by (simp add: cycle_dormant_wake)
      with True Some hit split show ?thesis by auto
    next
      case False
      with assms True Some
      have "cycle s c = Some (s\<lparr>last_speech_time := clock_ms c\<rparr>, [], sdl_poll_events c)"
        by (simp add: cycle_dormant_no_match)
      with assms True Some False show ?thesis by simp
    qed
  qed
qed

theorem dormant_activation_only_on_wake_word_witness:
  "cycle \<lparr>wake_word = ''test'', silence_threshold_ms = 1000, is_active = False,
            current_segment = [], last_speech_time = 0\<rparr>
         \<lparr>vad_simple = True, clock_ms = 5000,
            whisper_full = Some [''hello'', ''a test now'', ''set a test''],
            curl_perform = PerformFailed, sdl_poll_events = True\<rparr>
     = Some (\<lparr>wake_word = ''test'', silence_threshold_ms = 1000, is_active = True,
               current_segment = ''set a test'', last_speech_time = 5000\<rparr>,
             [Activated, PartialText ''set a test''], True)
   \<and> cycle \<lparr>wake_word = ''test'', silence_threshold_ms = 1000, is_active = False,
            current_segment = [], last_speech_time = 0\<rparr>
         \<lparr>vad_simple = True, clock_ms = 5000,
            whisper_full = Some [''hello'', ''a Test now''],
            curl_perform = PerformFailed, sdl_poll_events = True\<rparr>
     = Some (\<lparr>wake_word = ''test'', silence_threshold_ms = 1000, is_active = False,
               current_segment = [], last_speech_time = 5000\<rparr>, [], True)"
  using dormant_activation_only_on_wake_word
    [of "\<lparr>wake_word = ''test'', silence_threshold_ms = 1000, is_active = False,
            current_segment = [], last_speech_time = 0\<rparr>"
        "\<lparr>vad_simple = True, clock_ms = 5000,
            whisper_full = Some [''hello'', ''a test now'', ''set a test''],
            curl_perform = PerformFailed, sdl_poll_events = True\<rparr>"]
  by (simp add: cycle_def contains_wake_word_def string_find_def)

text \<open>
  C3. A cycle that starts active never prints \<open>Activated\<close>: with speech, every segment
  (whether or not it contains the wake word) is printed as partial text and appended to
  the utterance in order, and the cycle ends active. Over any run of the loop from an
  active state, no \<open>Activated\<close> is printed before the \<open>Processing\<close> line of the
  turn that returns the assistant to the inactive state.
\<close>

theorem armed_never_reactivates:
  assumes "is_active s"
  shows "(\<exists>s' evs r. cycle s c = Some (s', evs, r) \<and> Activated \<notin> set evs \<and>
            (\<forall>segs. vad_simple c \<and> whisper_full c = Some segs \<longrightarrow>
               is_active s' \<and> evs = map PartialText segs
               \<and> current_segment s' = current_segment s @ concat segs))
       \<and> (\<forall>cs s' evs. main_loop s cs = Some (s', evs) \<longrightarrow>
            Activated \<notin> set (takeWhile (\<lambda>e. \<not> is_finalize e) evs))"
proof (intro conjI allI impI)
  show "\<exists>s' evs r. cycle s c = Some (s', evs, r) \<and> Activated \<notin> set evs \<and>
            (\<forall>segs. vad_simple c \<and> whisper_full c = Some segs \<longrightarrow>
               is_active s' \<and> evs = map PartialText segs
               \<and> current_segment s' = current_segment s @ concat segs)"
  proof (cases "vad_simple c")
    case True
    show ?thesis
    proof (cases "whisper_full c")
      case None
      with True show ?thesis by (auto simp: cycle_speech_failed)
    next
      case (Some segs)
      with True assms show ?thesis by (auto simp: cycle_speech segments_loop_active)
    qed
  next
    case False
    show ?thesis
    proof (cases "silence_threshold_ms s < clock_ms c - last_speech_time s
        \<and> current_segment s \<noteq> []")
      case True
      with False assms cycle_silence_finalize [of c s] obtain errs response where
        "call_ollama (current_segment s) (curl_perform c) = Some (errs, response)"
        "cycle s c = Some (s\<lparr>current_segment := [], is_active := False\<rparr>,
              Processing (current_segment s) # errs @ [Reply response, Waiting],
              sdl_poll_events c)"
        by blast
      with False call_ollama_errs [of "current_segment s" "curl_perform c" errs response]
      show ?thesis by auto
    next
      case idle: False
      with False cycle_silence_idle [of c s] have "cycle s c = Some (s, [], sdl_poll_events c)"
        by blast
      with False show ?thesis by simp
    qed
  qed
next
  fix cs s' evs
  assume "main_loop s cs = Some (s', evs)"
  with assms show "Activated \<notin> set (takeWhile (\<lambda>e. \<not> is_finalize e) evs)"
    by (rule armed_run_no_activation)
qed

theorem armed_never_reactivates_witness:
  "cycle \<lparr>wake_word = ''test'', silence_threshold_ms = 1000, is_active = True,
            current_segment = ''run the '', last_speech_time = 5000\<rparr>
         \<lparr>vad_simple = True, clock_ms = 7000, whisper_full = Some [''test'', '' suite''],
            curl_perform = PerformFailed, sdl_poll_events = True\<rparr>
     = Some (\<lparr>wake_word = ''test'', silence_threshold_ms = 1000, is_active = True,
               current_segment = ''run the test suite'', last_speech_time = 7000\<rparr>,
             [PartialText ''test'', PartialText '' suite''], True)"
  using armed_never_reactivates
    [of "\<lparr>wake_word = ''test'', silence_threshold_ms = 1000, is_active = True,
            current_segment = ''run the '', last_speech_time = 5000\<rparr>"
        "\<lparr>vad_simple = True, clock_ms = 7000, whisper_full = Some [''test'', '' suite''],
            curl_perform = PerformFailed, sdl_poll_events = True\<rparr>"]
  by (simp add: cycle_def)

text \<open>
  C4. \<open>contains_wake_word text wake\<close> is true exactly when \<open>wake\<close> occurs in \<open>text\<close>
  as a contiguous run of characters: \<open>text = ps @ wake @ ss\<close> for some \<open>ps\<close> and
  \<open>ss\<close>. Characters are compared for equality, so the test is case-sensitive, and the
  function reads nothing but its two arguments.
\<close>

theorem contains_wake_word_iff_substring:
  "contains_wake_word text wake = (\<exists>ps ss. text = ps @ wake @ ss)"
  using str_find_None_iff [of "text" wake]
  by (auto simp: contains_wake_word_def string_find_def sublist_def)

text \<open>
  C5. Take a reachable inactive state and a cycle that activates it, with \<open>w\<close> the
  segment that triggered the activation and \<open>post\<close> the segments after it, followed by
  any further cycles \<open>cs\<close> during which the loop is not stopped and no turn is
  finalized. Then the assistant is still active and the utterance is the concatenation, in
  arrival order, of \<open>post\<close> and of the segments transcribed in the cycles of \<open>cs\<close>;
  the triggering segment is not part of it.
\<close>

theorem utterance_is_concatenation:
  assumes "reachable s" and "\<not> is_active s"
    and "vad_simple act" and "whisper_full act = Some (pre @ w # post)"
    and "\<forall>t\<in>set pre. \<not> contains_wake_word t (wake_word s)"
    and "contains_wake_word w (wake_word s)"
    and "sdl_poll_events act" and "\<forall>c\<in>set cs. sdl_poll_events c"
    and "main_loop s (act # cs) = Some (s', evs)"
    and "\<forall>e\<in>set evs. \<not> is_finalize e"
  shows "is_active s' \<and> current_segment s' = concat (post @ concat (map segments_of cs))"
proof -
  let ?s1 = "s\<lparr>last_speech_time := clock_ms act, is_active := True,
             current_segment := current_segment s @ concat post\<rparr>"
  from assms(2-6) have act: "cycle s act =
      Some (?s1, Activated # map PartialText post, sdl_poll_events act)"
    by (rule cycle_dormant_wake)
  with assms(7,9) obtain evs2 where
    rest: "main_loop ?s1 cs = Some (s', evs2)" and
    evs: "evs = (Activated # map PartialText post) @ evs2"
    by (auto split: option.splits)
  from evs assms(10) have quiet: "\<forall>e\<in>set evs2. \<not> is_finalize e" by simp
  have "is_active ?s1" by simp
  from armed_run_concat [OF this assms(8) rest quiet] dormant_invariant [OF assms(1,2)]
  show ?thesis by simp
qed

theorem utterance_is_concatenation_witness:
  "\<not> contains_wake_word ''hey'' ''test'' \<and> contains_wake_word ''test now'' ''test''
   \<and> main_loop default_params
       [\<lparr>vad_simple = True, clock_ms = 5000,
          whisper_full = Some [''hey'', ''test now'', ''set ''],
          curl_perform = PerformFailed, sdl_poll_events = True\<rparr>,
        \<lparr>vad_simple = True, clock_ms = 6000, whisper_full = Some [''a timer'', '' please''],
          curl_perform = PerformFailed, sdl_poll_events = True\<rparr>,
        \<lparr>vad_simple = False, clock_ms = 6500, whisper_full = None,
          curl_perform = PerformFailed, sdl_poll_events = True\<rparr>,
        \<lparr>vad_simple = True, clock_ms = 7000, whisper_full = None,
          curl_perform = PerformFailed, sdl_poll_events = True\<rparr>]
     = Some (\<lparr>wake_word = ''test'', silence_threshold_ms = 1000, is_active = True,
               current_segment = ''set a timer please'', last_speech_time = 7000\<rparr>,
             [Activated, PartialText ''set '', PartialText ''a timer'', PartialText '' please'',
              FailedToProcess])
   \<and> ''set a timer please'' = concat ([''set ''] @ [''a timer'', '' please''] @ [] @ [])"
proof -
  let ?c0 = "\<lparr>vad_simple = True, clock_ms = 5000,
          whisper_full = Some [''hey'', ''test now'', ''set ''],
          curl_perform = PerformFailed, sdl_poll_events = True\<rparr>"
  let ?cs = "[\<lparr>vad_simple = True, clock_ms = 6000, whisper_full = Some [''a timer'', '' please''],
          curl_perform = PerformFailed, sdl_poll_events = True\<rparr>,
        \<lparr>vad_simple = False, clock_ms = 6500, whisper_full = None,
          curl_perform = PerformFailed, sdl_poll_events = True\<rparr>,
        \<lparr>vad_simple = True, clock_ms = 7000, whisper_full = None,
          curl_perform = PerformFailed, sdl_poll_events = True\<rparr>]"
  let ?s' = "\<lparr>wake_word = ''test'', silence_threshold_ms = 1000, is_active = True,
               current_segment = ''set a timer please'', last_speech_time = 7000\<rparr>"
  let ?evs = "[Activated, PartialText ''set '', PartialText ''a timer'', PartialText '' please'',
              FailedToProcess]"
  have miss: "\<not> contains_wake_word ''hey'' ''test''"
    by (simp add: contains_wake_word_def string_find_def)
  have hit: "contains_wake_word ''test now'' ''test''"
    by (simp add: contains_wake_word_def string_find_def)
  have run: "main_loop default_params (?c0 # ?cs) = Some (?s', ?evs)"
    by (simp add: cycle_def default_params_def contains_wake_word_def string_find_def)
  have "is_active ?s' \<and>
      current_segment ?s' = concat ([''set ''] @ concat (map segments_of ?cs))"
  proof (rule utterance_is_concatenation [where s = default_params and act = ?c0
        and pre = "[''hey'']" and w = "''test now''" and evs = ?evs])
    show "reachable default_params" by (rule reachable_default)
    show "\<not> is_active default_params" by (simp add: default_params_def)
    show "vad_simple ?c0" by simp
    show "whisper_full ?c0 = Some ([''hey''] @ ''test now'' # [''set ''])" by simp
    show "\<forall>t\<in>set [''hey'']. \<not> contains_wake_word t (wake_word default_params)"
      using miss by (simp add: default_params_def)
    show "contains_wake_word ''test now'' (wake_word default_params)"
      using hit by (simp add: default_params_def)
    show "sdl_poll_events ?c0" by simp
    show "\<forall>c\<in>set ?cs. sdl_poll_events c" by simp
    show "main_loop default_params (?c0 # ?cs) = Some (?s', ?evs)" by (rule run)
    show "\<forall>e\<in>set ?evs. \<not> is_finalize e" by simp
  qed
  then have "''set a timer please'' = concat ([''set ''] @ [''a timer'', '' please''] @ [] @ [])"
    by (simp add: segments_of_def)
  with miss hit run show ?thesis by blast
qed

text \<open>
  C6. In every reachable state, an inactive assistant has an empty utterance. After any
  cycle from a reachable state that finalizes a turn, the utterance is empty and the
  assistant is inactive, and every following cycle without speech returns the same state
  and prints nothing.
\<close>

theorem dormant_utterance_empty:
  assumes "reachable s"
  shows "(\<not> is_active s \<longrightarrow> current_segment s = [])
       \<and> (\<forall>c s' evs r. cycle s c = Some (s', evs, r) \<and> (\<exists>u. Processing u \<in> set evs) \<longrightarrow>
            current_segment s' = [] \<and> \<not> is_active s'
            \<and> (\<forall>c'. \<not> vad_simple c' \<longrightarrow> cycle s' c' = Some (s', [], sdl_poll_events c')))"
proof (intro conjI allI impI)
  assume "\<not> is_active s"
  with assms show "current_segment s = []" by (rule dormant_invariant)
next
  fix c s' evs r
  assume a: "cycle s c = Some (s', evs, r) \<and> (\<exists>u. Processing u \<in> set evs)"
  have dormant: "\<not> is_active s'"
  proof (cases "is_active s")
    case True
    from cycle_active_cases [OF True, of c] a show ?thesis by auto
  next
    case False
    from cycle_dormant_cases [OF False, of c] a show ?thesis by auto
  qed
  from assms a have "reachable s'" by (auto intro: reachable.step)
  with dormant have empty: "current_segment s' = []" by (simp add: dormant_invariant)
  from dormant empty show "current_segment s' = []" and "\<not> is_active s'" by simp_all
  fix c' :: cycle_input
  assume "\<not> vad_simple c'"
  with dormant show "cycle s' c' = Some (s', [], sdl_poll_events c')"
    by (simp add: cycle_silence_idle)
qed

theorem dormant_utterance_empty_witness:
  "reachable \<lparr>wake_word = ''test'', silence_threshold_ms = 1000, is_active = True,
               current_segment = ''lights on'', last_speech_time = 5000\<rparr>
   \<and> cycle \<lparr>wake_word = ''test'', silence_threshold_ms = 1000, is_active = True,
               current_segment = ''lights on'', last_speech_time = 5000\<rparr>
            \<lparr>vad_simple = False, clock_ms = 7000, whisper_full = None,
               curl_perform = PerformFailed, sdl_poll_events = True\<rparr>
       = Some (\<lparr>wake_word = ''test'', silence_threshold_ms = 1000, is_active = False,
                 current_segment = [], last_speech_time = 5000\<rparr>,
               [Processing ''lights on'', CurlFailed, Reply [], Waiting], True)
   \<and> cycle \<lparr>wake_word = ''test'', silence_threshold_ms = 1000, is_active = False,
               current_segment = [], last_speech_time = 5000\<rparr>
            \<lparr>vad_simple = False, clock_ms = 9000, whisper_full = None,
               curl_perform = PerformFailed, sdl_poll_events = True\<rparr>
       = Some (\<lparr>wake_word = ''test'', silence_threshold_ms = 1000, is_active = False,
                 current_segment = [], last_speech_time = 5000\<rparr>, [], True)"
proof -
  let ?armed = "\<lparr>wake_word = ''test'', silence_threshold_ms = 1000, is_active = True,
               current_segment = ''lights on'', last_speech_time = 5000\<rparr>"
  let ?silence = "\<lparr>vad_simple = False, clock_ms = 7000, whisper_full = None,
               curl_perform = PerformFailed, sdl_poll_events = True\<rparr>"
  let ?dormant = "\<lparr>wake_word = ''test'', silence_threshold_ms = 1000, is_active = False,
                 current_segment = [], last_speech_time = 5000\<rparr>"
  let ?later = "\<lparr>vad_simple = False, clock_ms = 9000, whisper_full = None,
               curl_perform = PerformFailed, sdl_poll_events = True\<rparr>"
  have "cycle default_params
          \<lparr>vad_simple = True, clock_ms = 5000, whisper_full = Some [''test'', ''lights on''],
             curl_perform = PerformFailed, sdl_poll_events = True\<rparr>
        = Some (?armed, [Activated, PartialText ''lights on''], True)"
    by (simp add: cycle_def default_params_def contains_wake_word_def string_find_def)
  with reachable_default have armed: "reachable ?armed" by (rule reachable.step)
  have fin: "cycle ?armed ?silence
      = Some (?dormant, [Processing ''lights on'', CurlFailed, Reply [], Waiting], True)"
    by (simp add: cycle_def call_ollama_def)
  from dormant_utterance_empty [OF armed] fin
  have "\<forall>c'. \<not> vad_simple c' \<longrightarrow> cycle ?dormant c' = Some (?dormant, [], sdl_poll_events c')"
    by fastforce
  then have "cycle ?dormant ?later = Some (?dormant, [], True)" by simp
  with armed fin show ?thesis by blast
qed

text \<open>
  C7. The claim is that \<open>last_speech_time\<close> holds a time only while the assistant is
  active and is invalidated when the utterance is cleared. The field is a plain
  \<open>int64_t\<close>, initially 0, with no separate "unset" state; the loop writes the clock into
  it at every speech verdict, before it looks at \<open>is_active\<close>, and the reset after a
  finalized turn does not touch it. Two runs from the initial state show it: after one
  speech cycle without the wake word the assistant is inactive and the field holds that
  cycle's time, and after a complete turn (activation, speech, finalize) the assistant is
  inactive again, the utterance is cleared, and the field still holds the time of the
  last speech cycle.
\<close>

theorem last_speech_time_survives_finalize:
  "main_loop \<lparr>wake_word = ''test'', silence_threshold_ms = 1000, is_active = False,
               current_segment = [], last_speech_time = 0\<rparr>
     [\<lparr>vad_simple = True, clock_ms = 5000, whisper_full = Some [''hello''],
        curl_perform = PerformFailed, sdl_poll_events = True\<rparr>]
   = Some (\<lparr>wake_word = ''test'', silence_threshold_ms = 1000, is_active = False,
             current_segment = [], last_speech_time = 5000\<rparr>, [])
   \<and> main_loop \<lparr>wake_word = ''test'', silence_threshold_ms = 1000, is_active = False,
               current_segment = [], last_speech_time = 0\<rparr>
     [\<lparr>vad_simple = True, clock_ms = 5000, whisper_full = Some [''test''],
        curl_perform = PerformFailed, sdl_poll_events = True\<rparr>,
      \<lparr>vad_simple = True, clock_ms = 6000, whisper_full = Some [''hi''],
        curl_perform = PerformFailed, sdl_poll_events = True\<rparr>,
      \<lparr>vad_simple = False, clock_ms = 8000, whisper_full = None,
        curl_perform = PerformFailed, sdl_poll_events = True\<rparr>]
   = Some (\<lparr>wake_word = ''test'', silence_threshold_ms = 1000, is_active = False,
             current_segment = [], last_speech_time = 6000\<rparr>,
           [Activated, PartialText ''hi'', Processing ''hi'', CurlFailed, Reply [], Waiting])"
  by (simp add: cycle_def call_ollama_def contains_wake_word_def string_find_def)

text \<open>
  C7, as the code has it. Every cycle returns, and it ends with \<open>last_speech_time\<close> equal
  to the clock reading if speech was detected (whatever the state, and whether or not
  transcription succeeded) and unchanged otherwise, the finalizing cycle included. The
  assistant becomes active only in a cycle with speech, so at that moment the field holds
  the time of that cycle. Over a run of the loop that is not stopped, the field holds the
  clock reading of the most recent cycle with speech, and its starting value if there was
  none.
\<close>

theorem last_speech_time_follows_vad:
  "(\<exists>s' evs r. cycle s c = Some (s', evs, r)
      \<and> last_speech_time s' = (if vad_simple c then clock_ms c else last_speech_time s)
      \<and> (is_active s' \<and> \<not> is_active s \<longrightarrow> vad_simple c \<and> last_speech_time s' = clock_ms c))
   \<and> (\<forall>cs s' evs. main_loop s cs = Some (s', evs) \<and> (\<forall>c\<in>set cs. sdl_poll_events c) \<longrightarrow>
        last_speech_time s' =
          (case rev (filter vad_simple cs) of [] \<Rightarrow> last_speech_time s | c # _ \<Rightarrow> clock_ms c))"
proof (intro conjI allI impI)
  from cycle_last_speech_time [of s c] obtain s' evs r where
    c: "cycle s c = Some (s', evs, r)" and
    t: "last_speech_time s' = (if vad_simple c then clock_ms c else last_speech_time s)"
    by blast
  have "vad_simple c" if "is_active s'" "\<not> is_active s"
  proof (rule ccontr)
    assume "\<not> vad_simple c"
    with that(2) have "cycle s c = Some (s, [], sdl_poll_events c)"
      by (simp add: cycle_silence_idle)
    with c that show False by simp
  qed
  with c t show "\<exists>s' evs r. cycle s c = Some (s', evs, r)
      \<and> last_speech_time s' = (if vad_simple c then clock_ms c else last_speech_time s)
      \<and> (is_active s' \<and> \<not> is_active s \<longrightarrow> vad_simple c \<and> last_speech_time s' = clock_ms c)"
    by auto
next
  fix cs s' evs
  assume "main_loop s cs = Some (s', evs) \<and> (\<forall>c\<in>set cs. sdl_poll_events c)"
  then show "last_speech_time s' =
          (case rev (filter vad_simple cs) of [] \<Rightarrow> last_speech_time s | c # _ \<Rightarrow> clock_ms c)"
    by (simp add: run_last_speech_time)
qed

theorem last_speech_time_follows_vad_witness:
  "cycle \<lparr>wake_word = ''test'', silence_threshold_ms = 1000, is_active = False,
            current_segment = [], last_speech_time = 4000\<rparr>
         \<lparr>vad_simple = True, clock_ms = 5000, whisper_full = Some [''test''],
            curl_perform = PerformFailed, sdl_poll_events = True\<rparr>
     = Some (\<lparr>wake_word = ''test'', silence_threshold_ms = 1000, is_active = True,
               current_segment = [], last_speech_time = 5000\<rparr>, [Activated], True)
   \<and> cycle \<lparr>wake_word = ''test'', silence_threshold_ms = 1000, is_active = False,
            current_segment = [], last_speech_time = 4000\<rparr>
         \<lparr>vad_simple = False, clock_ms = 5000, whisper_full = None,
            curl_perform = PerformFailed, sdl_poll_events = True\<rparr>
     = Some (\<lparr>wake_word = ''test'', silence_threshold_ms = 1000, is_active = False,
               current_segment = [], last_speech_time = 4000\<rparr>, [], True)"
  using last_speech_time_follows_vad
    [of "\<lparr>wake_word = ''test'', silence_threshold_ms = 1000, is_active = False,
            current_segment = [], last_speech_time = 4000\<rparr>"
        "\<lparr>vad_simple = True, clock_ms = 5000, whisper_full = Some [''test''],
            curl_perform = PerformFailed, sdl_poll_events = True\<rparr>"]
  by (simp add: cycle_def contains_wake_word_def string_find_def)

text \<open>
  C8. When \<open>whisper_full\<close> fails, the cycle prints the error line and ends in the state a
  cycle with zero segments would have ended in: \<open>is_active\<close> and the utterance are
  unchanged, and the loop goes on with the next cycle from that state (the \<open>continue\<close>
  does not even ask \<open>sdl_poll_events\<close>). When a turn is due and the transfer fails
  (no curl handle, or \<open>curl_easy_perform\<close> failed), the reply printed is empty, the
  utterance is cleared and the assistant is inactive; a later silent cycle does nothing,
  so the turn is not dispatched again.
\<close>

theorem transient_failures_do_not_stop_the_loop:
  "(vad_simple c \<and> whisper_full c = None \<longrightarrow>
      (\<exists>s'. cycle s c = Some (s', [FailedToProcess], True)
          \<and> is_active s' = is_active s \<and> current_segment s' = current_segment s
          \<and> cycle s (c\<lparr>whisper_full := Some []\<rparr>) = Some (s', [], sdl_poll_events c)
          \<and> main_loop s (c # cs) =
              map_option (\<lambda>(s'', evs). (s'', FailedToProcess # evs)) (main_loop s' cs)))
   \<and> (\<not> vad_simple c \<and> is_active s \<and> current_segment s \<noteq> []
        \<and> silence_threshold_ms s < clock_ms c - last_speech_time s
        \<and> (curl_perform c = InitFailed \<or> curl_perform c = PerformFailed) \<longrightarrow>
      (\<exists>s' errs. cycle s c =
           Some (s', Processing (current_segment s) # errs @ [Reply [], Waiting],
                 sdl_poll_events c)
          \<and> \<not> is_active s' \<and> current_segment s' = []
          \<and> cycle s' (c\<lparr>clock_ms := later\<rparr>) = Some (s', [], sdl_poll_events c)))"
proof (intro conjI impI)
  assume a: "vad_simple c \<and> whisper_full c = None"
  let ?s' = "s\<lparr>last_speech_time := clock_ms c\<rparr>"
  from a have "cycle s c = Some (?s', [FailedToProcess], True)"
    by (simp add: cycle_speech_failed)
  moreover from a have "cycle s (c\<lparr>whisper_full := Some []\<rparr>) = Some (?s', [], sdl_poll_events c)"
    by (simp add: cycle_speech)
  moreover from a have "main_loop s (c # cs) =
      map_option (\<lambda>(s'', evs). (s'', FailedToProcess # evs)) (main_loop ?s' cs)"
    using main_loop_after_failed_transcription [of c s cs] by blast
  ultimately show "\<exists>s'. cycle s c = Some (s', [FailedToProcess], True)
          \<and> is_active s' = is_active s \<and> current_segment s' = current_segment s
          \<and> cycle s (c\<lparr>whisper_full := Some []\<rparr>) = Some (s', [], sdl_poll_events c)
          \<and> main_loop s (c # cs) =
              map_option (\<lambda>(s'', evs). (s'', FailedToProcess # evs)) (main_loop s' cs)"
    by simp
next
  assume a: "\<not> vad_simple c \<and> is_active s \<and> current_segment s \<noteq> []
        \<and> silence_threshold_ms s < clock_ms c - last_speech_time s
        \<and> (curl_perform c = InitFailed \<or> curl_perform c = PerformFailed)"
  let ?s' = "s\<lparr>current_segment := [], is_active := False\<rparr>"
  from a call_ollama_failed [of "curl_perform c" "current_segment s"] obtain errs where
    "call_ollama (current_segment s) (curl_perform c) = Some (errs, [])"
    by blast
  with a have "cycle s c =
      Some (?s', Processing (current_segment s) # errs @ [Reply [], Waiting], sdl_poll_events c)"
    by (simp add: cycle_def)
  moreover from a have "cycle ?s' (c\<lparr>clock_ms := later\<rparr>) = Some (?s', [], sdl_poll_events c)"
    by (simp add: cycle_silence_idle)
  ultimately show "\<exists>s' errs. cycle s c =
           Some (s', Processing (current_segment s) # errs @ [Reply [], Waiting],
                 sdl_poll_events c)
          \<and> \<not> is_active s' \<and> current_segment s' = []
          \<and> cycle s' (c\<lparr>clock_ms := later\<rparr>) = Some (s', [], sdl_poll_events c)"
    by simp
qed

theorem transient_failures_do_not_stop_the_loop_witness:
  "main_loop \<lparr>wake_word = ''test'', silence_threshold_ms = 1000, is_active = True,
               current_segment = ''lights on'', last_speech_time = 5000\<rparr>
     [\<lparr>vad_simple = True, clock_ms = 5500, whisper_full = None,
        curl_perform = PerformFailed, sdl_poll_events = False\<rparr>,
      \<lparr>vad_simple = False, clock_ms = 7000, whisper_full = None,
        curl_perform = PerformFailed, sdl_poll_events = True\<rparr>,
      \<lparr>vad_simple = False, clock_ms = 9000, whisper_full = None,
        curl_perform = PerformFailed, sdl_poll_events = True\<rparr>]
   = Some (\<lparr>wake_word = ''test'', silence_threshold_ms = 1000, is_active = False,
             current_segment = [], last_speech_time = 5500\<rparr>,
           [FailedToProcess, Processing ''lights on'', CurlFailed, Reply [], Waiting])"
  using transient_failures_do_not_stop_the_loop
    [of "\<lparr>vad_simple = True, clock_ms = 5500, whisper_full = None,
        curl_perform = PerformFailed, sdl_poll_events = False\<rparr>"
        "\<lparr>wake_word = ''test'', silence_threshold_ms = 1000, is_active = True,
               current_segment = ''lights on'', last_speech_time = 5000\<rparr>"
        "[\<lparr>vad_simple = False, clock_ms = 7000, whisper_full = None,
        curl_perform = PerformFailed, sdl_poll_events = True\<rparr>,
      \<lparr>vad_simple = False, clock_ms = 9000, whisper_full = None,
        curl_perform = PerformFailed, sdl_poll_events = True\<rparr>]" 0]
  by (simp add: cycle_def call_ollama_def)

text \<open>
  C10. The empty wake word is contained in every text, so with an empty wake word an
  inactive assistant is activated by the first segment of any cycle with speech that
  delivers at least one segment; the remaining segments of that cycle are appended.
\<close>

theorem empty_wake_word_matches_everything:
  "contains_wake_word seg []
   \<and> (wake_word s = [] \<and> \<not> is_active s \<and> vad_simple c \<and> whisper_full c = Some (t # ts) \<longrightarrow>
        cycle s c =
          Some (s\<lparr>last_speech_time := clock_ms c, is_active := True,
                   current_segment := current_segment s @ concat ts\<rparr>,
                Activated # map PartialText ts, sdl_poll_events c))"
proof (intro conjI impI)
  have any: "contains_wake_word x []" for x
    by (cases x) (simp_all add: contains_wake_word_def string_find_def)
  then show "contains_wake_word seg []" .
  assume a: "wake_word s = [] \<and> \<not> is_active s \<and> vad_simple c \<and> whisper_full c = Some (t # ts)"
  with any [of t] cycle_dormant_wake [of s c "[]" t ts]
  show "cycle s c =
          Some (s\<lparr>last_speech_time := clock_ms c, is_active := True,
                   current_segment := current_segment s @ concat ts\<rparr>,
                Activated # map PartialText ts, sdl_poll_events c)"
    by simp
qed

theorem empty_wake_word_matches_everything_witness:
  "contains_wake_word ''hello'' []
   \<and> cycle \<lparr>wake_word = [], silence_threshold_ms = 1000, is_active = False,
            current_segment = [], last_speech_time = 0\<rparr>
         \<lparr>vad_simple = True, clock_ms = 5000, whisper_full = Some [''hello'', '' there''],
            curl_perform = PerformFailed, sdl_poll_events = True\<rparr>
     = Some (\<lparr>wake_word = [], silence_threshold_ms = 1000, is_active = True,
               current_segment = '' there'', last_speech_time = 5000\<rparr>,
             [Activated, PartialText '' there''], True)"
  using empty_wake_word_matches_everything
    [of "''hello''"
        "\<lparr>wake_word = [], silence_threshold_ms = 1000, is_active = False,
            current_segment = [], last_speech_time = 0\<rparr>"
        "\<lparr>vad_simple = True, clock_ms = 5000, whisper_full = Some [''hello'', '' there''],
            curl_perform = PerformFailed, sdl_poll_events = True\<rparr>" "''hello''" "['' there'']"]
  by simp

text \<open>
  C9. The claim is that \<open>call_ollama\<close> returns the response fragments of the lines of the
  body, concatenated in order. On a body of two lines, \<open>{"response":"Hi"}\<close> and
  \<open>{"response":" there"}\<close>, each ended by a newline, the transfer succeeding, the
  function returns the empty string and not \<open>Hi there\<close>.
\<close>

theorem call_ollama_loses_the_response:
  "call_ollama ''hello''
     (PerformOk (''{'' @ [dquote] @ ''response'' @ [dquote] @ '':'' @ [dquote] @ ''Hi''
                   @ [dquote] @ ''}'' @ [CHR 0x0A]
                 @ ''{'' @ [dquote] @ ''response'' @ [dquote] @ '':'' @ [dquote] @ '' there''
                   @ [dquote] @ ''}'' @ [CHR 0x0A]))
   = Some ([], [])"
  by (simp add: call_ollama_def response_key_quote_def response_key_def dquote_def parse_line_def
    string_find_def size_t_of_def npos_def substr_def)

end
